theory Spec2Isabelle
  imports Main "HOL-Library.Char_ord" "HOL-Library.List_Lexorder" "HOL-Library.Multiset"
begin

unbundle bit_operations_syntax

section \<open>The MD5 message digest (Python's \<open>hashlib.md5\<close>)\<close>

text \<open>
  \<open>compare.py\<close> hashes with \<open>hashlib.md5\<close>. The digest is modelled as RFC 1321 defines
  it. A 32-bit register is a \<open>nat\<close> below \<open>2 ^ 32\<close>, every addition is reduced
  \<open>mod 2 ^ 32\<close> where the algorithm wraps, and a byte string is a \<open>string\<close>
  (a list of 8-bit characters): a Python \<open>str\<close> is represented by its UTF-8 encoding, so
  that \<open>.encode()\<close> is the identity.
\<close>

type_synonym md5_state = "nat \<times> nat \<times> nat \<times> nat"

definition md5_init :: md5_state where
  "md5_init = (0x67452301, 0xefcdab89, 0x98badcfe, 0x10325476)"

definition rotl32 :: "nat \<Rightarrow> nat \<Rightarrow> nat" where
  "rotl32 n w = (w * 2 ^ n) mod 4294967296 + w div 2 ^ (32 - n)"

definition md5_F :: "nat \<Rightarrow> nat \<Rightarrow> nat \<Rightarrow> nat" where
  "md5_F b c d = (b AND c) OR ((4294967295 - b) AND d)"

definition md5_G :: "nat \<Rightarrow> nat \<Rightarrow> nat \<Rightarrow> nat" where
  "md5_G b c d = (d AND b) OR ((4294967295 - d) AND c)"

definition md5_H :: "nat \<Rightarrow> nat \<Rightarrow> nat \<Rightarrow> nat" where
  "md5_H b c d = b XOR c XOR d"

definition md5_I :: "nat \<Rightarrow> nat \<Rightarrow> nat \<Rightarrow> nat" where
  "md5_I b c d = c XOR (b OR (4294967295 - d))"

text \<open>
  One table per round; an entry is the additive constant \<open>floor (2 ^ 32 * |sin (i + 1)|)\<close>,
  the rotation amount and the index of the message word of step \<open>i\<close>.
\<close>

definition md5_table1 :: "(nat \<times> nat \<times> nat) list" where
  "md5_table1 =
    [(0xd76aa478, 7, 0), (0xe8c7b756, 12, 1), (0x242070db, 17, 2), (0xc1bdceee, 22, 3),
     (0xf57c0faf, 7, 4), (0x4787c62a, 12, 5), (0xa8304613, 17, 6), (0xfd469501, 22, 7),
     (0x698098d8, 7, 8), (0x8b44f7af, 12, 9), (0xffff5bb1, 17, 10), (0x895cd7be, 22, 11),
     (0x6b901122, 7, 12), (0xfd987193, 12, 13), (0xa679438e, 17, 14), (0x49b40821, 22, 15)]"

definition md5_table2 :: "(nat \<times> nat \<times> nat) list" where
  "md5_table2 =
    [(0xf61e2562, 5, 1), (0xc040b340, 9, 6), (0x265e5a51, 14, 11), (0xe9b6c7aa, 20, 0),
     (0xd62f105d, 5, 5), (0x02441453, 9, 10), (0xd8a1e681, 14, 15), (0xe7d3fbc8, 20, 4),
     (0x21e1cde6, 5, 9), (0xc33707d6, 9, 14), (0xf4d50d87, 14, 3), (0x455a14ed, 20, 8),
     (0xa9e3e905, 5, 13), (0xfcefa3f8, 9, 2), (0x676f02d9, 14, 7), (0x8d2a4c8a, 20, 12)]"

definition md5_table3 :: "(nat \<times> nat \<times> nat) list" where
  "md5_table3 =
    [(0xfffa3942, 4, 5), (0x8771f681, 11, 8), (0x6d9d6122, 16, 11), (0xfde5380c, 23, 14),
     (0xa4beea44, 4, 1), (0x4bdecfa9, 11, 4), (0xf6bb4b60, 16, 7), (0xbebfbc70, 23, 10),
     (0x289b7ec6, 4, 13), (0xeaa127fa, 11, 0), (0xd4ef3085, 16, 3), (0x04881d05, 23, 6),
     (0xd9d4d039, 4, 9), (0xe6db99e5, 11, 12), (0x1fa27cf8, 16, 15), (0xc4ac5665, 23, 2)]"

definition md5_table4 :: "(nat \<times> nat \<times> nat) list" where
  "md5_table4 =
    [(0xf4292244, 6, 0), (0x432aff97, 10, 7), (0xab9423a7, 15, 14), (0xfc93a039, 21, 5),
     (0x655b59c3, 6, 12), (0x8f0ccc92, 10, 3), (0xffeff47d, 15, 10), (0x85845dd1, 21, 1),
     (0x6fa87e4f, 6, 8), (0xfe2ce6e0, 10, 15), (0xa3014314, 15, 6), (0x4e0811a1, 21, 13),
     (0xf7537e82, 6, 4), (0xbd3af235, 10, 11), (0x2ad7d2bb, 15, 2), (0xeb86d391, 21, 9)]"

fun md5_step ::
  "(nat \<Rightarrow> nat \<Rightarrow> nat \<Rightarrow> nat) \<Rightarrow> nat list \<Rightarrow> nat \<times> nat \<times> nat \<Rightarrow>
   md5_state \<Rightarrow> md5_state" where
  "md5_step f M (k, s, g) (a, b, c, d) =
     (d, (b + rotl32 s ((f b c d + a + k + M ! g) mod 4294967296)) mod 4294967296, b, c)"

fun md5_block :: "nat list \<Rightarrow> md5_state \<Rightarrow> md5_state" where
  "md5_block M (a0, b0, c0, d0) =
     (case fold (md5_step md5_I M) md5_table4
            (fold (md5_step md5_H M) md5_table3
              (fold (md5_step md5_G M) md5_table2
                (fold (md5_step md5_F M) md5_table1 (a0, b0, c0, d0)))) of
        (a, b, c, d) \<Rightarrow>
          ((a0 + a) mod 4294967296, (b0 + b) mod 4294967296,
           (c0 + c) mod 4294967296, (d0 + d) mod 4294967296))"

text \<open>Little-endian 32-bit words of a byte sequence whose length is a multiple of four.\<close>

fun le_words :: "nat list \<Rightarrow> nat list" where
  "le_words (b0 # b1 # b2 # b3 # bs) =
     (b0 + 256 * b1 + 65536 * b2 + 16777216 * b3) # le_words bs"
| "le_words _ = []"

text \<open>
  Padding: the byte \<open>0x80\<close>, zero bytes up to 56 modulo 64, then the length of the
  message in bits as a 64-bit little-endian number (two words, low word first).
\<close>

definition md5_pad :: "string \<Rightarrow> nat list" where
  "md5_pad s =
     le_words (map of_char s @ 128 # replicate ((119 - length s mod 64) mod 64) 0) @
     [(8 * length s) mod 4294967296, (8 * length s div 4294967296) mod 4294967296]"

fun md5_blocks :: "nat list \<Rightarrow> md5_state \<Rightarrow> md5_state" where
  "md5_blocks [] st = st"
| "md5_blocks (w # ws) st = md5_blocks (drop 16 (w # ws)) (md5_block (take 16 (w # ws)) st)"

definition hexdigit :: "nat \<Rightarrow> char" where
  "hexdigit n = ''0123456789abcdef'' ! n"

definition hex_word :: "nat \<Rightarrow> string" where
  "hex_word w =
     concat (map (\<lambda>b. [hexdigit (b div 16), hexdigit (b mod 16)])
       [w mod 256, w div 256 mod 256, w div 65536 mod 256, w div 16777216])"

text \<open>\<open>hashlib.md5(s).hexdigest()\<close>: 32 lower-case hexadecimal digits.\<close>

definition md5_hexdigest :: "string \<Rightarrow> string" where
  "md5_hexdigest s =
     (case md5_blocks (md5_pad s) md5_init of
        (a, b, c, d) \<Rightarrow> hex_word a @ hex_word b @ hex_word c @ hex_word d)"

section \<open>Python values\<close>

text \<open>
  The values \<open>stable_hash_namedtuple\<close> tells apart: lists and sets
  (\<open>isinstance(v, (list, set))\<close>), tuples (\<open>isinstance(v, tuple)\<close>), among them the
  named tuples, which alone have \<open>_fields\<close>, and every other object. An object of another
  type enters the computation only through \<open>str()\<close>, or through \<open>repr()\<close> when a
  container that holds it is printed, so \<open>Atom s r\<close> is such an object with
  \<open>str(x) = s\<close> and \<open>repr(x) = r\<close>: the number 5 is \<open>Atom ''5'' ''5''\<close>, and a
  Python string is an atom whose \<open>repr\<close> is its text in quotes. A set is given by its
  elements in iteration order. A named tuple is its type name and its fields in
  declaration order, each with its value: \<open>zip(t._fields, t)\<close>.
\<close>

datatype pyval =
    Atom string string
  | PyList "pyval list"
  | PySet "pyval list"
  | PyTuple "pyval list"
  | NamedTuple string "(string \<times> pyval) list"

fun join :: "string \<Rightarrow> string list \<Rightarrow> string" where
  "join sep [] = []"
| "join sep [x] = x"
| "join sep (x # y # ys) = x @ sep @ join sep (y # ys)"

text \<open>
  \<open>repr()\<close> of the containers, as Python 3 prints them; the \<open>__repr__\<close> of a named
  tuple is \<open>Name(field=repr(value), ...)\<close>.
\<close>

fun py_repr :: "pyval \<Rightarrow> string" where
  "py_repr (Atom s r) = r"
| "py_repr (PyList xs) = ''['' @ join '', '' (map py_repr xs) @ '']''"
| "py_repr (PySet xs) =
     (if xs = [] then ''set()'' else ''{'' @ join '', '' (map py_repr xs) @ ''}'')"
| "py_repr (PyTuple xs) =
     (case xs of
        [x] \<Rightarrow> ''('' @ py_repr x @ '',)''
      | _ \<Rightarrow> ''('' @ join '', '' (map py_repr xs) @ '')'')"
| "py_repr (NamedTuple n fs) =
     n @ ''('' @ join '', '' (map (\<lambda>(k, v). k @ ''='' @ py_repr v) fs) @ '')''"

text \<open>\<open>str()\<close>: the containers and the named tuples do not override \<open>__str__\<close>.\<close>

fun py_str :: "pyval \<Rightarrow> string" where
  "py_str (Atom s r) = s"
| "py_str v = py_repr v"

fun is_collection :: "pyval \<Rightarrow> bool" where
  "is_collection (PyList xs) = True"
| "is_collection (PySet xs) = True"
| "is_collection _ = False"

fun is_tuple :: "pyval \<Rightarrow> bool" where
  "is_tuple (PyTuple xs) = True"
| "is_tuple (NamedTuple n fs) = True"
| "is_tuple _ = False"

section \<open>compare.py\<close>

text \<open>\<open>CompareError = collections.namedtuple('CompareError', 'source message entry')\<close>\<close>

record CompareError =
  source :: pyval
  message :: string
  entry :: pyval

text \<open>
  The exceptions the module can end with. \<open>ValueError\<close> is raised by the three comparisons
  with the text \<open>str(error)\<close> of a \<open>CompareError\<close>; it carries that \<open>CompareError\<close>.
  \<open>AttributeError\<close> is Python's answer to \<open>x._fields\<close> and \<open>x.source\<close> on an object
  without that attribute.
\<close>

datatype py_error =
    AttributeError
  | AssertionError
  | IndexError
  | KeyError
  | ValueError CompareError

subsection \<open>\<open>stable_hash_namedtuple\<close>\<close>

text \<open>
  The state of \<open>hashobj\<close> is the byte string it has consumed: \<open>update(b)\<close> appends
  \<open>b\<close>, and \<open>hexdigest()\<close> is the MD5 digest of the whole. \<open>hash_fields\<close> is the loop
  over \<open>zip(objtuple._fields, objtuple)\<close>, \<open>hash_elements\<close> the loop over the elements
  of a list or set that fills the set \<open>subhashes\<close>. \<open>sorted(subhashes)\<close> is
  \<open>sorted_list_of_set\<close>: digests are ASCII strings, ordered as lists of characters.
\<close>

function (sequential)
    stable_hash_namedtuple :: "string set \<Rightarrow> pyval \<Rightarrow> py_error + string"
and hash_fields :: "string set \<Rightarrow> (string \<times> pyval) list \<Rightarrow> string \<Rightarrow> py_error + string"
and hash_elements :: "string set \<Rightarrow> pyval list \<Rightarrow> string set \<Rightarrow> py_error + string set"
where
  "stable_hash_namedtuple ignore (NamedTuple n fs) =
     (case hash_fields ignore fs [] of
        Inl e \<Rightarrow> Inl e
      | Inr hashobj \<Rightarrow> Inr (md5_hexdigest hashobj))"
| "stable_hash_namedtuple ignore _ = Inl AttributeError"
| "hash_fields ignore [] hashobj = Inr hashobj"
| "hash_fields ignore ((attr_name, attr_value) # rest) hashobj =
     (if attr_name \<in> ignore then hash_fields ignore rest hashobj
      else case attr_value of
          PyList elements \<Rightarrow>
            (case hash_elements ignore elements {} of
               Inl e \<Rightarrow> Inl e
             | Inr subhashes \<Rightarrow>
                 hash_fields ignore rest (hashobj @ concat (sorted_list_of_set subhashes)))
        | PySet elements \<Rightarrow>
            (case hash_elements ignore elements {} of
               Inl e \<Rightarrow> Inl e
             | Inr subhashes \<Rightarrow>
                 hash_fields ignore rest (hashobj @ concat (sorted_list_of_set subhashes)))
        | _ \<Rightarrow> hash_fields ignore rest (hashobj @ py_str attr_value))"
| "hash_elements ignore [] subhashes = Inr subhashes"
| "hash_elements ignore (element # rest) subhashes =
     (if is_tuple element then
        (case stable_hash_namedtuple ignore element of
           Inl e \<Rightarrow> Inl e
         | Inr subhash \<Rightarrow> hash_elements ignore rest (insert subhash subhashes))
      else hash_elements ignore rest (insert (md5_hexdigest (py_str element)) subhashes))"
  by pat_completeness auto
termination
  by (relation "measure (\<lambda>x. case x of
        Inl (ignore, v) \<Rightarrow> size v
      | Inr (Inl (ignore, fs, hashobj)) \<Rightarrow> size_list (size_prod (\<lambda>_. 0) size) fs
      | Inr (Inr (ignore, xs, subhashes)) \<Rightarrow> size_list size xs)") auto

text \<open>\<open>hash_entry\<close>: the ignore set of a directive.\<close>

definition hash_entry :: "pyval \<Rightarrow> py_error + string" where
  "hash_entry e = stable_hash_namedtuple {''source'', ''entry'', ''diff_amount''} e"

subsection \<open>\<open>hash_entries\<close>\<close>

text \<open>
  Attribute access \<open>e.source\<close>. Only a named tuple reaches it: \<open>hash_entry\<close> has read
  \<open>e._fields\<close> before.
\<close>

fun getattr :: "pyval \<Rightarrow> string \<Rightarrow> py_error + pyval" where
  "getattr (NamedTuple n fs) a =
     (case map_of fs a of None \<Rightarrow> Inl AttributeError | Some v \<Rightarrow> Inr v)"
| "getattr _ a = Inl AttributeError"

text \<open>
  \<open>CompareError(entry.source, "Duplicate entry: {} == {}".format(entry, other_entry), entry)\<close>;
  \<open>format\<close> with an empty format specification is \<open>str\<close>.
\<close>

definition duplicate_error :: "pyval \<Rightarrow> pyval \<Rightarrow> py_error + CompareError" where
  "duplicate_error e other_entry =
     (case getattr e ''source'' of
        Inl err \<Rightarrow> Inl err
      | Inr src \<Rightarrow>
          Inr \<lparr>source = src,
               message = ''Duplicate entry: '' @ py_str e @ '' == '' @ py_str other_entry,
               entry = e\<rparr>)"

type_synonym entry_dict = "string \<rightharpoonup> pyval"

text \<open>The loop of \<open>hash_entries\<close> over the state \<open>(entry_hash_dict, errors)\<close>.\<close>

fun hash_entries_loop ::
  "pyval list \<Rightarrow> entry_dict \<times> CompareError list \<Rightarrow> py_error + entry_dict \<times> CompareError list"
where
  "hash_entries_loop [] st = Inr st"
| "hash_entries_loop (e # rest) (entry_hash_dict, errors) =
     (case hash_entry e of
        Inl err \<Rightarrow> Inl err
      | Inr hash_ \<Rightarrow>
          (case entry_hash_dict hash_ of
             Some other_entry \<Rightarrow>
               (case duplicate_error e other_entry of
                  Inl err \<Rightarrow> Inl err
                | Inr error \<Rightarrow>
                    hash_entries_loop rest (entry_hash_dict(hash_ \<mapsto> e), errors @ [error]))
           | None \<Rightarrow> hash_entries_loop rest (entry_hash_dict(hash_ \<mapsto> e), errors)))"

text \<open>The \<open>assert\<close> after the loop is the branch that returns \<open>AssertionError\<close>.\<close>

definition hash_entries :: "pyval list \<Rightarrow> py_error + entry_dict \<times> CompareError list" where
  "hash_entries entries =
     (case hash_entries_loop entries (Map.empty, []) of
        Inl err \<Rightarrow> Inl err
      | Inr (entry_hash_dict, errors) \<Rightarrow>
          if errors = [] \<and> card (dom entry_hash_dict) \<noteq> length entries
          then Inl AssertionError
          else Inr (entry_hash_dict, errors))"

subsection \<open>The comparisons\<close>

text \<open>
  Two things come from outside the module and are parameters of the three comparisons:
  \<open>entry_sortkey\<close>, imported from \<open>.data\<close>, the key the results are sorted by; and
  \<open>iter\<close>, the order in which Python iterates over a set of strings, which the language
  leaves open. \<open>set_iteration iter\<close> says what every such order satisfies: each element
  once.
\<close>

definition set_iteration :: "(string set \<Rightarrow> string list) \<Rightarrow> bool" where
  "set_iteration iter \<longleftrightarrow> (\<forall>S. finite S \<longrightarrow> set (iter S) = S \<and> distinct (iter S))"

text \<open>\<open>[hashes[key] for key in keys]\<close>\<close>

fun lookup_all :: "entry_dict \<Rightarrow> string list \<Rightarrow> py_error + pyval list" where
  "lookup_all hashes [] = Inr []"
| "lookup_all hashes (key # keys) =
     (case hashes key of
        None \<Rightarrow> Inl KeyError
      | Some v \<Rightarrow>
          (case lookup_all hashes keys of Inl err \<Rightarrow> Inl err | Inr vs \<Rightarrow> Inr (v # vs)))"

text \<open>\<open>error = (errors1 + errors2)[0]; raise ValueError(str(error))\<close>\<close>

definition raise_first :: "CompareError list \<Rightarrow> py_error" where
  "raise_first errors = (case errors of [] \<Rightarrow> IndexError | error # _ \<Rightarrow> ValueError error)"

definition compare_entries ::
  "(pyval \<Rightarrow> 'k::linorder) \<Rightarrow> (string set \<Rightarrow> string list) \<Rightarrow> pyval list \<Rightarrow> pyval list \<Rightarrow>
   py_error + bool \<times> pyval list \<times> pyval list" where
  "compare_entries entry_sortkey iter entries1 entries2 =
     (case hash_entries entries1 of
        Inl err \<Rightarrow> Inl err
      | Inr (hashes1, errors1) \<Rightarrow>
     (case hash_entries entries2 of
        Inl err \<Rightarrow> Inl err
      | Inr (hashes2, errors2) \<Rightarrow>
          let keys1 = dom hashes1; keys2 = dom hashes2 in
          if errors1 \<noteq> [] \<or> errors2 \<noteq> [] then Inl (raise_first (errors1 @ errors2))
          else
            let same = (keys1 = keys2) in
            (case lookup_all hashes1 (iter (keys1 - keys2)) of
               Inl err \<Rightarrow> Inl err
             | Inr found1 \<Rightarrow>
            (case lookup_all hashes2 (iter (keys2 - keys1)) of
               Inl err \<Rightarrow> Inl err
             | Inr found2 \<Rightarrow>
                 Inr (same, sort_key entry_sortkey found1, sort_key entry_sortkey found2)))))"

definition includes_entries ::
  "(pyval \<Rightarrow> 'k::linorder) \<Rightarrow> (string set \<Rightarrow> string list) \<Rightarrow> pyval list \<Rightarrow> pyval list \<Rightarrow>
   py_error + bool \<times> pyval list" where
  "includes_entries entry_sortkey iter subset_entries entries =
     (case hash_entries subset_entries of
        Inl err \<Rightarrow> Inl err
      | Inr (subset_hashes, subset_errors) \<Rightarrow>
          let subset_keys = dom subset_hashes in
     (case hash_entries entries of
        Inl err \<Rightarrow> Inl err
      | Inr (hashes, errors) \<Rightarrow>
          let keys = dom hashes in
          if subset_errors \<noteq> [] \<or> errors \<noteq> [] then Inl (raise_first (subset_errors @ errors))
          else
            let includes = (subset_keys \<subseteq> keys) in
            (case lookup_all subset_hashes (iter (subset_keys - keys)) of
               Inl err \<Rightarrow> Inl err
             | Inr found \<Rightarrow> Inr (includes, sort_key entry_sortkey found))))"

definition excludes_entries ::
  "(pyval \<Rightarrow> 'k::linorder) \<Rightarrow> (string set \<Rightarrow> string list) \<Rightarrow> pyval list \<Rightarrow> pyval list \<Rightarrow>
   py_error + bool \<times> pyval list" where
  "excludes_entries entry_sortkey iter subset_entries entries =
     (case hash_entries subset_entries of
        Inl err \<Rightarrow> Inl err
      | Inr (subset_hashes, subset_errors) \<Rightarrow>
          let subset_keys = dom subset_hashes in
     (case hash_entries entries of
        Inl err \<Rightarrow> Inl err
      | Inr (hashes, errors) \<Rightarrow>
          let keys = dom hashes in
          if subset_errors \<noteq> [] \<or> errors \<noteq> [] then Inl (raise_first (subset_errors @ errors))
          else
            let intersection = keys \<inter> subset_keys;
                excludes = (intersection = {}) in
            (case lookup_all subset_hashes (iter intersection) of
               Inl err \<Rightarrow> Inl err
             | Inr found \<Rightarrow> Inr (excludes, sort_key entry_sortkey found))))"

subsection \<open>Records\<close>

text \<open>
  The inputs the module is written for. A record is a named tuple; the tuples among the
  elements of its lists and sets are records again (a plain tuple there has no
  \<open>_fields\<close>). A directive is a record with a \<open>source\<close> field.
\<close>

fun is_record :: "pyval \<Rightarrow> bool" where
  "is_record (NamedTuple n fs) =
     list_all (\<lambda>(k, v). case v of
         PyList xs \<Rightarrow> list_all (\<lambda>x. is_tuple x \<longrightarrow> is_record x) xs
       | PySet xs \<Rightarrow> list_all (\<lambda>x. is_tuple x \<longrightarrow> is_record x) xs
       | _ \<Rightarrow> True) fs"
| "is_record _ = False"

definition is_directive :: "pyval \<Rightarrow> bool" where
  "is_directive e \<longleftrightarrow>
     is_record e \<and> (case e of NamedTuple n fs \<Rightarrow> ''source'' \<in> fst ` set fs | _ \<Rightarrow> False)"

subsection \<open>What one element and one field contribute\<close>

text \<open>
  Two abbreviations for the statements below, read off the two loop bodies: the
  sub-digest of one element of a list or set, and the bytes that one field makes
  \<open>hashobj\<close> consume.
\<close>

definition element_hash :: "string set \<Rightarrow> pyval \<Rightarrow> py_error + string" where
  "element_hash ignore element =
     (if is_tuple element then stable_hash_namedtuple ignore element
      else Inr (md5_hexdigest (py_str element)))"

definition collection_bytes :: "string set \<Rightarrow> pyval list \<Rightarrow> py_error + string" where
  "collection_bytes ignore elements =
     (case hash_elements ignore elements {} of
        Inl e \<Rightarrow> Inl e
      | Inr subhashes \<Rightarrow> Inr (concat (sorted_list_of_set subhashes)))"

fun field_bytes :: "string set \<Rightarrow> string \<times> pyval \<Rightarrow> py_error + string" where
  "field_bytes ignore (attr_name, attr_value) =
     (if attr_name \<in> ignore then Inr []
      else case attr_value of
          PyList elements \<Rightarrow> collection_bytes ignore elements
        | PySet elements \<Rightarrow> collection_bytes ignore elements
        | _ \<Rightarrow> Inr (py_str attr_value))"

subsection \<open>What \<open>hash_entries\<close> is to return\<close>

text \<open>
  The specification of the index and of the errors, in terms of the list of entries
  alone. \<open>last_with_digest h entries\<close> is the last entry of the list with digest
  \<open>h\<close>, if there is one. \<open>expected_error entries i\<close> is the error for the entry at
  position \<open>i\<close>: none unless an earlier entry has the same digest, and otherwise the
  \<open>CompareError\<close> made of the entry and the most recent such earlier entry.
\<close>

definition last_with_digest :: "string \<Rightarrow> pyval list \<Rightarrow> pyval option" where
  "last_with_digest h entries = List.find (\<lambda>x. hash_entry x = Inr h) (rev entries)"

definition expected_error :: "pyval list \<Rightarrow> nat \<Rightarrow> (py_error + CompareError) option" where
  "expected_error entries i =
     (case hash_entry (entries ! i) of
        Inl err \<Rightarrow> None
      | Inr h \<Rightarrow> map_option (duplicate_error (entries ! i)) (last_with_digest h (take i entries)))"

text \<open>The invariant of the loop of \<open>hash_entries\<close>, after the entries \<open>es\<close>.\<close>

definition loop_inv :: "pyval list \<Rightarrow> entry_dict \<Rightarrow> CompareError list \<Rightarrow> bool" where
  "loop_inv es d errs \<longleftrightarrow>
     (\<forall>h. d h = last_with_digest h es) \<and>
     finite (dom d) \<and>
     length errs + card (dom d) = length es \<and>
     map (\<lambda>err. Some (Inr err)) errs =
       filter (\<lambda>x. x \<noteq> None) (map (expected_error es) [0..<length es]) \<and>
     (\<forall>e\<in>set es. \<exists>h. hash_entry e = Inr h)"

section \<open>MD5 on concrete messages\<close>

lemma replicate_numeral_eval: "replicate (numeral k) x = x # replicate (pred_numeral k) x"
  by (simp add: numeral_eq_Suc)

lemmas md5_eval = md5_hexdigest_def md5_F_def md5_G_def md5_H_def md5_I_def
  md5_table1_def md5_table2_def md5_table3_def md5_table4_def
  md5_pad_def rotl32_def md5_init_def hexdigit_def hex_word_def replicate_numeral_eval

text \<open>
  Three messages of the test suite of RFC 1321 (the empty message, one block, two
  blocks), and the messages of the examples below.
\<close>

lemma md5_empty: "md5_hexdigest [] = ''d41d8cd98f00b204e9800998ecf8427e''"
  by (simp add: md5_eval)

lemma md5_digits:
  "md5_hexdigest
     ''12345678901234567890123456789012345678901234567890123456789012345678901234567890'' =
   ''57edf4a22be3c955ac49da2e2107b67a''"
  by (simp add: md5_eval)

lemma md5_abc: "md5_hexdigest ''abc'' = ''900150983cd24fb0d6963f7d28e17f72''"
  by (simp add: md5_eval)

lemma md5_123: "md5_hexdigest ''123'' = ''202cb962ac59075b964b07152d234b70''"
  by (simp add: md5_eval)

lemma md5_5: "md5_hexdigest ''5'' = ''e4da3b7fbbce2345d7772b0674a318d5''"
  by (simp add: md5_eval)

lemma md5_7: "md5_hexdigest ''7'' = ''8f14e45fceea167a5a36dedd4bea2543''"
  by (simp add: md5_eval)

lemma md5_Inner_7:
  "md5_hexdigest ''Inner(value=1, source=7)'' = ''ce2c4425a0d73490fc5827e7acf80e90''"
  by (simp add: md5_eval)

lemma md5_Inner_8:
  "md5_hexdigest ''Inner(value=1, source=8)'' = ''5bc55a0f73c393eca189c55ee746c447''"
  by (simp add: md5_eval)

section \<open>The loops of \<open>stable_hash_namedtuple\<close>\<close>

lemma only_AttributeError:
  "stable_hash_namedtuple ign v = Inl e \<longrightarrow> e = AttributeError"
  "hash_fields ign fs acc = Inl e \<longrightarrow> e = AttributeError"
  "hash_elements ign xs S = Inl e \<longrightarrow> e = AttributeError"
  by (induction ign v and ign fs acc and ign xs S
      rule: stable_hash_namedtuple_hash_fields_hash_elements.induct)
     (auto split: sum.splits pyval.splits if_splits)

text \<open>One turn of the loop over the fields appends the bytes of the field.\<close>

lemma hash_fields_Cons:
  "hash_fields ign (f # fs) acc =
     (case field_bytes ign f of Inl e \<Rightarrow> Inl e | Inr b \<Rightarrow> hash_fields ign fs (acc @ b))"
proof -
  obtain k v where f: "f = (k, v)" by (cases f)
  show ?thesis
    by (cases v) (simp_all add: f collection_bytes_def split: sum.splits)
qed

declare hash_fields.simps(2) [simp del]

lemma hash_fields_append:
  "hash_fields ign (fs @ gs) acc =
     (case hash_fields ign fs acc of Inl e \<Rightarrow> Inl e | Inr a \<Rightarrow> hash_fields ign gs a)"
proof (induction fs arbitrary: acc)
  case Nil
  show ?case by simp
next
  case (Cons f fs)
  show ?case
    by (simp only: append_Cons hash_fields_Cons Cons.IH split: sum.splits) simp
qed

lemma hash_elements_Cons:
  "hash_elements ign (x # xs) S =
     (case element_hash ign x of Inl e \<Rightarrow> Inl e | Inr h \<Rightarrow> hash_elements ign xs (insert h S))"
  by (simp add: element_hash_def)

declare hash_elements.simps(2) [simp del]

lemma element_hash_error: "element_hash ign x = Inl e \<Longrightarrow> e = AttributeError"
  using only_AttributeError(1) [of ign x e]
  by (simp add: element_hash_def split: if_splits)

text \<open>The set of sub-digests depends on the set of the elements only.\<close>

lemma hash_elements_set:
  "hash_elements ign xs S =
     (if \<forall>x\<in>set xs. \<exists>h. element_hash ign x = Inr h
      then Inr (S \<union> {h. \<exists>x\<in>set xs. element_hash ign x = Inr h})
      else Inl AttributeError)"
proof (induction xs arbitrary: S)
  case Nil
  show ?case by simp
next
  case (Cons x xs)
  show ?case
  proof (cases "element_hash ign x")
    case (Inl e)
    then have "e = AttributeError" by (rule element_hash_error)
    with Inl show ?thesis by (auto simp: hash_elements_Cons)
  next
    case (Inr h)
    have "insert h S \<union> {h. \<exists>x\<in>set xs. element_hash ign x = Inr h} =
          S \<union> {h'. \<exists>y\<in>set (x # xs). element_hash ign y = Inr h'}"
      using Inr by auto
    then show ?thesis
      using Inr by (simp add: hash_elements_Cons Cons.IH)
  qed
qed

lemma hash_elements_cong_set:
  "set xs = set ys \<Longrightarrow> hash_elements ign xs S = hash_elements ign ys S"
  by (simp add: hash_elements_set)

lemma field_bytes_collection_cong:
  assumes "set xs = set ys"
  shows "field_bytes ign (k, PyList xs) = field_bytes ign (k, PyList ys)"
    and "field_bytes ign (k, PySet xs) = field_bytes ign (k, PySet ys)"
  using hash_elements_cong_set [OF assms, of ign "{}"]
  by (simp_all add: collection_bytes_def)

lemma stable_hash_field_cong:
  assumes "field_bytes ign f = field_bytes ign g"
  shows "stable_hash_namedtuple ign (NamedTuple n (fs @ f # gs)) =
         stable_hash_namedtuple ign (NamedTuple n (fs @ g # gs))"
  using assms
  by (cases "hash_fields ign fs []") (simp_all add: hash_fields_append hash_fields_Cons)

lemma field_bytes_scalar:
  "\<not> is_collection v \<Longrightarrow> field_bytes ign (k, v) = (if k \<in> ign then Inr [] else Inr (py_str v))"
  by (cases v) simp_all

lemma hash_fields_scalars:
  "\<forall>f\<in>set fs. fst f \<notin> ign \<longrightarrow> \<not> is_collection (snd f) \<Longrightarrow>
   hash_fields ign fs acc =
     Inr (acc @ concat (map (\<lambda>f. py_str (snd f)) (filter (\<lambda>f. fst f \<notin> ign) fs)))"
proof (induction fs arbitrary: acc)
  case Nil
  show ?case by simp
next
  case (Cons f fs)
  obtain k v where f: "f = (k, v)" by (cases f)
  have rest: "\<forall>g\<in>set fs. fst g \<notin> ign \<longrightarrow> \<not> is_collection (snd g)"
    using Cons.prems by simp
  show ?case
  proof (cases "k \<in> ign")
    case True
    then show ?thesis
      using Cons.IH [OF rest, of acc] by (simp add: hash_fields_Cons f)
  next
    case False
    then have "\<not> is_collection v" using Cons.prems by (simp add: f)
    then show ?thesis
      using False Cons.IH [OF rest, of "acc @ py_str v"]
      by (simp add: hash_fields_Cons f field_bytes_scalar del: field_bytes.simps)
  qed
qed

lemma hash_fields_ignored:
  "list_all2 (\<lambda>f g. fst f = fst g \<and> (fst f \<notin> ign \<longrightarrow> snd f = snd g)) fs gs \<Longrightarrow>
   hash_fields ign fs acc = hash_fields ign gs acc"
proof (induction fs gs arbitrary: acc rule: list_all2_induct)
  case Nil
  show ?case by simp
next
  case (Cons f fs g gs)
  obtain k v where f: "f = (k, v)" by (cases f)
  obtain k' v' where g: "g = (k', v')" by (cases g)
  have "field_bytes ign f = field_bytes ign g"
    using Cons.hyps(1) by (cases "k \<in> ign") (simp_all add: f g)
  then show ?case
    by (cases "field_bytes ign g") (simp_all add: hash_fields_Cons Cons.IH)
qed

section \<open>The claims about \<open>stable_hash_namedtuple\<close>\<close>

text \<open>
  C1, as the specification states it: the digest recurses into a field that holds a
  record, so that a field of the nested record that is named in the ignore set does not
  influence the digest of the outer record. The code does not: two records
  \<open>Outer(data=Inner(value=1, source=...))\<close> that differ only in the \<open>source\<close> of the
  nested record, hashed with \<open>source\<close> ignored, have different digests.
\<close>

theorem nested_ignored_field_changes_digest:
  "stable_hash_namedtuple {''source''}
     (NamedTuple ''Outer''
        [(''data'', NamedTuple ''Inner''
                      [(''value'', Atom ''1'' ''1''), (''source'', Atom ''7'' ''7'')])])
     = Inr ''ce2c4425a0d73490fc5827e7acf80e90'' \<and>
   stable_hash_namedtuple {''source''}
     (NamedTuple ''Outer''
        [(''data'', NamedTuple ''Inner''
                      [(''value'', Atom ''1'' ''1''), (''source'', Atom ''8'' ''8'')])])
     = Inr ''5bc55a0f73c393eca189c55ee746c447'' \<and>
   stable_hash_namedtuple {''source''}
     (NamedTuple ''Outer''
        [(''data'', NamedTuple ''Inner''
                      [(''value'', Atom ''1'' ''1''), (''source'', Atom ''7'' ''7'')])])
     \<noteq>
   stable_hash_namedtuple {''source''}
     (NamedTuple ''Outer''
        [(''data'', NamedTuple ''Inner''
                      [(''value'', Atom ''1'' ''1''), (''source'', Atom ''8'' ''8'')])])"
  by (simp add: hash_fields_Cons md5_Inner_7 md5_Inner_8)

text \<open>
  C1, amended: a field that holds a record (outside a list or set) is not recursed into.
  The loop takes the \<open>else\<close> branch and feeds \<open>str()\<close> of the nested record, which
  prints all its fields, the ignored ones too; the digest of the outer record is the
  digest it has when the nested record is replaced by any object with the same
  \<open>str()\<close>.
\<close>

theorem nested_record_field_hashed_by_str:
  "stable_hash_namedtuple ignore (NamedTuple n (fs @ (k, NamedTuple m hs) # gs)) =
   stable_hash_namedtuple ignore
     (NamedTuple n (fs @ (k, Atom (py_repr (NamedTuple m hs)) r) # gs))"
  by (rule stable_hash_field_cong) simp

text \<open>
  C2, as the specification states it: records that differ in a scalar that is not ignored
  have different digests, and no two different records feed the same bytes to the
  accumulator. The fields \<open>(12, 3)\<close> and \<open>(1, 23)\<close> both feed \<open>123\<close>.
\<close>

theorem shifted_characters_same_digest:
  "NamedTuple ''T'' [(''a'', Atom ''12'' ''12''), (''b'', Atom ''3'' ''3'')] \<noteq>
   NamedTuple ''T'' [(''a'', Atom ''1'' ''1''), (''b'', Atom ''23'' ''23'')] \<and>
   stable_hash_namedtuple {}
     (NamedTuple ''T'' [(''a'', Atom ''12'' ''12''), (''b'', Atom ''3'' ''3'')]) =
   stable_hash_namedtuple {}
     (NamedTuple ''T'' [(''a'', Atom ''1'' ''1''), (''b'', Atom ''23'' ''23'')])"
  by (simp add: hash_fields_Cons)

text \<open>
  C2, amended: for a record whose fields, the ignored ones apart, hold no list or set,
  the digest is the MD5 digest of the concatenation of \<open>str()\<close> of these fields, in
  the order of the fields and with nothing between them. Records with the same
  concatenation have the same digest, whatever their fields are.
\<close>

theorem digest_of_concatenation:
  assumes "\<forall>f\<in>set fs. fst f \<notin> ignore \<longrightarrow> \<not> is_collection (snd f)"
  shows "stable_hash_namedtuple ignore (NamedTuple n fs) =
         Inr (md5_hexdigest
               (concat (map (\<lambda>f. py_str (snd f)) (filter (\<lambda>f. fst f \<notin> ignore) fs))))"
  using hash_fields_scalars [OF assms, of "[]"] by simp

theorem digest_of_concatenation_witness:
  "\<not> is_collection (Atom ''12'' ''12'') \<and> \<not> is_collection (Atom ''3'' ''3'') \<and>
   stable_hash_namedtuple {}
     (NamedTuple ''T'' [(''a'', Atom ''12'' ''12''), (''b'', Atom ''3'' ''3'')]) =
   Inr ''202cb962ac59075b964b07152d234b70''"
proof -
  have h: "\<forall>f\<in>set [(''a'', Atom ''12'' ''12''), (''b'', Atom ''3'' ''3'')].
      fst f \<notin> ({} :: string set) \<longrightarrow> \<not> is_collection (snd f)"
    by simp
  from digest_of_concatenation [OF h, of "''T''"] show ?thesis
    by (simp add: md5_123)
qed

text \<open>
  C6: permuting the elements of a field that holds a list or a set does not change the
  digest of the record.
\<close>

theorem permuted_collection_same_digest:
  assumes "mset xs = mset ys"
  shows "stable_hash_namedtuple ignore (NamedTuple n (fs @ (k, PyList xs) # gs)) =
         stable_hash_namedtuple ignore (NamedTuple n (fs @ (k, PyList ys) # gs)) \<and>
         stable_hash_namedtuple ignore (NamedTuple n (fs @ (k, PySet xs) # gs)) =
         stable_hash_namedtuple ignore (NamedTuple n (fs @ (k, PySet ys) # gs))"
proof -
  from assms have "set xs = set ys" by (rule mset_eq_setD)
  then show ?thesis
    by (intro conjI stable_hash_field_cong field_bytes_collection_cong)
qed

theorem permuted_collection_same_digest_witness:
  "mset [Atom ''USD'' ''USD'', Atom ''CAD'' ''CAD''] =
   mset [Atom ''CAD'' ''CAD'', Atom ''USD'' ''USD''] \<and>
   stable_hash_namedtuple {''source''}
     (NamedTuple ''Open''
        [(''account'', Atom ''Assets'' ''Assets''),
         (''currencies'', PyList [Atom ''USD'' ''USD'', Atom ''CAD'' ''CAD''])]) =
   stable_hash_namedtuple {''source''}
     (NamedTuple ''Open''
        [(''account'', Atom ''Assets'' ''Assets''),
         (''currencies'', PyList [Atom ''CAD'' ''CAD'', Atom ''USD'' ''USD''])])"
proof -
  have h: "mset [Atom ''USD'' ''USD'', Atom ''CAD'' ''CAD''] =
           mset [Atom ''CAD'' ''CAD'', Atom ''USD'' ''USD'']"
    by simp
  from permuted_collection_same_digest
         [OF h, of "{''source''}" "''Open''" "[(''account'', Atom ''Assets'' ''Assets'')]"
            "''currencies''" "[]"]
    h
  show ?thesis by simp
qed

text \<open>
  C7: an element that occurs again in a list or set does not change the digest: the
  record has the digest of the record without the repetition.
\<close>

theorem repeated_element_same_digest:
  assumes "x \<in> set (xs @ ys)"
  shows "stable_hash_namedtuple ignore (NamedTuple n (fs @ (k, PyList (xs @ x # ys)) # gs)) =
         stable_hash_namedtuple ignore (NamedTuple n (fs @ (k, PyList (xs @ ys)) # gs)) \<and>
         stable_hash_namedtuple ignore (NamedTuple n (fs @ (k, PySet (xs @ x # ys)) # gs)) =
         stable_hash_namedtuple ignore (NamedTuple n (fs @ (k, PySet (xs @ ys)) # gs))"
proof -
  from assms have "set (xs @ x # ys) = set (xs @ ys)" by auto
  then show ?thesis
    by (intro conjI stable_hash_field_cong field_bytes_collection_cong)
qed

theorem repeated_element_same_digest_witness:
  "Atom ''USD'' ''USD'' \<in> set ([Atom ''USD'' ''USD''] @ []) \<and>
   stable_hash_namedtuple {''source''}
     (NamedTuple ''Open''
        [(''currencies'', PyList [Atom ''USD'' ''USD'', Atom ''USD'' ''USD''])]) =
   stable_hash_namedtuple {''source''}
     (NamedTuple ''Open'' [(''currencies'', PyList [Atom ''USD'' ''USD''])])"
proof -
  have h: "Atom ''USD'' ''USD'' \<in> set ([Atom ''USD'' ''USD''] @ [])"
    by simp
  from repeated_element_same_digest
         [OF h, of "{''source''}" "''Open''" "[]" "''currencies''" "[]"]
  show ?thesis by simp
qed

text \<open>
  C8: two records with the same fields whose values agree in every field that is not
  ignored have the same digest, for any ignore set, and so for the ignore set
  \<open>source\<close>, \<open>entry\<close>, \<open>diff_amount\<close> of \<open>hash_entry\<close>.
\<close>

theorem ignored_fields_no_influence:
  assumes "list_all2 (\<lambda>f g. fst f = fst g \<and> (fst f \<notin> ignore \<longrightarrow> snd f = snd g)) fs gs"
  shows "stable_hash_namedtuple ignore (NamedTuple n fs) =
         stable_hash_namedtuple ignore (NamedTuple n gs) \<and>
         (ignore = {''source'', ''entry'', ''diff_amount''} \<longrightarrow>
            hash_entry (NamedTuple n fs) = hash_entry (NamedTuple n gs))"
  using hash_fields_ignored [OF assms, of "[]"] by (auto simp: hash_entry_def)

theorem ignored_fields_no_influence_witness:
  "list_all2 (\<lambda>f g. fst f = fst g \<and>
       (fst f \<notin> {''source'', ''entry'', ''diff_amount''} \<longrightarrow> snd f = snd g))
     [(''source'', Atom ''a.beancount:1'' ''a''), (''amount'', Atom ''5'' ''5'')]
     [(''source'', Atom ''b.beancount:9'' ''b''), (''amount'', Atom ''5'' ''5'')] \<and>
   hash_entry (NamedTuple ''Tx''
     [(''source'', Atom ''a.beancount:1'' ''a''), (''amount'', Atom ''5'' ''5'')]) =
   hash_entry (NamedTuple ''Tx''
     [(''source'', Atom ''b.beancount:9'' ''b''), (''amount'', Atom ''5'' ''5'')])"
proof -
  have h: "list_all2 (\<lambda>f g. fst f = fst g \<and>
       (fst f \<notin> {''source'', ''entry'', ''diff_amount''} \<longrightarrow> snd f = snd g))
     [(''source'', Atom ''a.beancount:1'' ''a''), (''amount'', Atom ''5'' ''5'')]
     [(''source'', Atom ''b.beancount:9'' ''b''), (''amount'', Atom ''5'' ''5'')]"
    by simp
  from ignored_fields_no_influence [OF h, of "''Tx''"] h show ?thesis
    by simp
qed

section \<open>The loop of \<open>hash_entries\<close>\<close>

lemma hash_entries_loop_append:
  "hash_entries_loop (es @ es') st =
     (case hash_entries_loop es st of Inl err \<Rightarrow> Inl err | Inr st' \<Rightarrow> hash_entries_loop es' st')"
proof (induction es arbitrary: st)
  case Nil
  show ?case by simp
next
  case (Cons e es)
  obtain d errs where st: "st = (d, errs)" by (cases st)
  show ?case
    by (simp add: st Cons.IH split: sum.splits option.splits)
qed

lemma last_with_digest_snoc:
  "last_with_digest h (es @ [e]) =
     (if hash_entry e = Inr h then Some e else last_with_digest h es)"
  by (simp add: last_with_digest_def)

lemma last_with_digest_None:
  "last_with_digest h es = None \<longleftrightarrow> Inr h \<notin> hash_entry ` set es"
  by (force simp: last_with_digest_def find_None_iff)

lemma expected_error_snoc_old:
  "i < length es \<Longrightarrow> expected_error (es @ [e]) i = expected_error es i"
  by (simp add: expected_error_def nth_append split: sum.splits)

lemma expected_error_snoc_new:
  "expected_error (es @ [e]) (length es) =
     (case hash_entry e of
        Inl err \<Rightarrow> None
      | Inr h \<Rightarrow> map_option (duplicate_error e) (last_with_digest h es))"
  by (simp add: expected_error_def split: sum.splits)

lemma expected_errors_snoc:
  "map (expected_error (es @ [e])) [0..<length (es @ [e])] =
   map (expected_error es) [0..<length es] @ [expected_error (es @ [e]) (length es)]"
  by (simp add: expected_error_snoc_old)

lemma loop_inv_step:
  assumes inv: "loop_inv es d errs"
    and step: "hash_entries_loop [e] (d, errs) = Inr (d', errs')"
  shows "loop_inv (es @ [e]) d' errs'"
proof -
  from step obtain h where h: "hash_entry e = Inr h"
    by (cases "hash_entry e") simp_all
  from inv have d: "\<And>h. last_with_digest h es = d h"
    and fin: "finite (dom d)"
    and cnt: "length errs + card (dom d) = length es"
    and errs: "map (\<lambda>err. Some (Inr err)) errs =
       filter (\<lambda>x. x \<noteq> None) (map (expected_error es) [0..<length es])"
    and ok: "\<forall>e\<in>set es. \<exists>h. hash_entry e = Inr h"
    unfolding loop_inv_def by simp_all
  have d': "d' = d(h \<mapsto> e)"
    using step h by (simp split: option.splits sum.splits)
  have dict: "\<forall>h'. d' h' = last_with_digest h' (es @ [e])"
    by (simp add: d' d last_with_digest_snoc h)
  have ok': "\<forall>x\<in>set (es @ [e]). \<exists>h. hash_entry x = Inr h"
    using ok h by simp
  show ?thesis
  proof (cases "d h")
    case None
    then have e': "errs' = errs" using step h by simp
    have "h \<notin> dom d" using None by auto
    then have card: "card (dom d') = Suc (card (dom d))"
      using fin by (simp add: d')
    have "expected_error (es @ [e]) (length es) = None"
      using None by (simp add: expected_error_snoc_new h d)
    then have "map (\<lambda>err. Some (Inr err)) errs' =
        filter (\<lambda>x. x \<noteq> None) (map (expected_error (es @ [e])) [0..<length (es @ [e])])"
      unfolding expected_errors_snoc e' using errs by simp
    moreover have "finite (dom d')" using fin by (simp add: d')
    moreover have "length errs' + card (dom d') = length (es @ [e])"
      using cnt card e' by simp
    ultimately show ?thesis
      unfolding loop_inv_def using dict ok' by blast
  next
    case (Some other)
    from step h Some obtain error where
      err: "duplicate_error e other = Inr error" and e': "errs' = errs @ [error]"
      by (cases "duplicate_error e other") simp_all
    have "h \<in> dom d" using Some by auto
    then have card: "card (dom d') = card (dom d)"
      by (simp add: d' insert_absorb)
    have "expected_error (es @ [e]) (length es) = Some (Inr error)"
      using Some err by (simp add: expected_error_snoc_new h d)
    then have "map (\<lambda>err. Some (Inr err)) errs' =
        filter (\<lambda>x. x \<noteq> None) (map (expected_error (es @ [e])) [0..<length (es @ [e])])"
      unfolding expected_errors_snoc e' using errs by simp
    moreover have "finite (dom d')" using fin by (simp add: d')
    moreover have "length errs' + card (dom d') = length (es @ [e])"
      using cnt card e' by simp
    ultimately show ?thesis
      unfolding loop_inv_def using dict ok' by blast
  qed
qed

lemma hash_entries_loop_inv:
  "hash_entries_loop es (Map.empty, []) = Inr (d, errs) \<Longrightarrow> loop_inv es d errs"
proof (induction es arbitrary: d errs rule: rev_induct)
  case Nil
  then show ?case
    by (auto simp: loop_inv_def last_with_digest_def)
next
  case (snoc e es)
  from snoc.prems obtain st where
    st: "hash_entries_loop es (Map.empty, []) = Inr st"
    and step: "hash_entries_loop [e] st = Inr (d, errs)"
    by (auto simp: hash_entries_loop_append split: sum.splits)
  obtain d0 errs0 where st0: "st = (d0, errs0)" by (cases st)
  from snoc.IH [of d0 errs0] st st0 have "loop_inv es d0 errs0" by simp
  then show ?case
    using step st0 by (auto intro: loop_inv_step)
qed


lemma is_record_hashable:
  "is_record v \<longrightarrow> (\<exists>h. stable_hash_namedtuple ign v = Inr h)"
  "list_all (\<lambda>(k, v). case v of
         PyList xs \<Rightarrow> list_all (\<lambda>x. is_tuple x \<longrightarrow> is_record x) xs
       | PySet xs \<Rightarrow> list_all (\<lambda>x. is_tuple x \<longrightarrow> is_record x) xs
       | _ \<Rightarrow> True) fs \<longrightarrow> (\<exists>r. hash_fields ign fs acc = Inr r)"
  "list_all (\<lambda>x. is_tuple x \<longrightarrow> is_record x) xs \<longrightarrow> (\<exists>T. hash_elements ign xs S = Inr T)"
  by (induction ign v and ign fs acc and ign xs S
      rule: stable_hash_namedtuple_hash_fields_hash_elements.induct)
     (auto simp: hash_fields.simps(2) hash_elements.simps(2)
           split: sum.splits pyval.splits if_splits)

lemma is_record_hash_entry: "is_record e \<Longrightarrow> \<exists>h. hash_entry e = Inr h"
  using is_record_hashable(1) by (simp add: hash_entry_def)

lemma is_directive_duplicate_error:
  "is_directive e \<Longrightarrow> \<exists>err. duplicate_error e other = Inr err"
proof -
  assume d: "is_directive e"
  then obtain n fs where e: "e = NamedTuple n fs" and src: "''source'' \<in> fst ` set fs"
    by (cases e) (simp_all add: is_directive_def)
  from src have "map_of fs ''source'' \<noteq> None"
    by (simp add: map_of_eq_None_iff)
  then show ?thesis
    by (auto simp: duplicate_error_def e)
qed

lemma hash_entries_loop_total:
  "\<forall>e\<in>set es. is_directive e \<Longrightarrow> \<exists>st'. hash_entries_loop es st = Inr st'"
proof (induction es arbitrary: st)
  case Nil
  show ?case by simp
next
  case (Cons e es)
  obtain d errs where st: "st = (d, errs)" by (cases st)
  from Cons.prems have dir: "is_directive e" and rest: "\<forall>x\<in>set es. is_directive x"
    by simp_all
  from dir obtain h where h: "hash_entry e = Inr h"
    using is_record_hash_entry by (auto simp: is_directive_def)
  show ?case
  proof (cases "d h")
    case None
    then show ?thesis
      using Cons.IH [OF rest] by (simp add: st h)
  next
    case (Some other)
    from is_directive_duplicate_error [OF dir, of other]
    obtain err where "duplicate_error e other = Inr err" by blast
    then show ?thesis
      using Some Cons.IH [OF rest] by (simp add: st h)
  qed
qed

lemma hash_entries_eq_loop:
  "hash_entries es = hash_entries_loop es (Map.empty, [])"
proof (cases "hash_entries_loop es (Map.empty, [])")
  case (Inl err)
  then show ?thesis by (simp add: hash_entries_def)
next
  case (Inr st)
  obtain d errs where st: "st = (d, errs)" by (cases st)
  from hash_entries_loop_inv [of es d errs] Inr st
  have "length errs + card (dom d) = length es"
    unfolding loop_inv_def by blast
  then show ?thesis
    using Inr st by (auto simp: hash_entries_def)
qed

lemma hash_entries_inv:
  "hash_entries es = Inr (d, errs) \<Longrightarrow> loop_inv es d errs"
  by (simp add: hash_entries_eq_loop hash_entries_loop_inv)

lemma hash_entries_dom:
  assumes "hash_entries es = Inr (d, errs)"
  shows "Inr ` dom d = hash_entry ` set es"
proof -
  from hash_entries_inv [OF assms]
  have d: "\<And>h. d h = last_with_digest h es"
    and ok: "\<forall>e\<in>set es. \<exists>h. hash_entry e = Inr h"
    unfolding loop_inv_def by blast+
  have dom: "dom d = {h. Inr h \<in> hash_entry ` set es}"
    unfolding dom_def by (simp add: d last_with_digest_None)
  show ?thesis
  proof (rule set_eqI)
    fix y
    show "y \<in> Inr ` dom d \<longleftrightarrow> y \<in> hash_entry ` set es"
    proof
      assume "y \<in> Inr ` dom d"
      then show "y \<in> hash_entry ` set es" using dom by auto
    next
      assume y: "y \<in> hash_entry ` set es"
      then obtain e where e: "e \<in> set es" "y = hash_entry e" by auto
      with ok obtain h where "hash_entry e = Inr h" by blast
      with e y dom show "y \<in> Inr ` dom d" by auto
    qed
  qed
qed

lemma hash_entries_card:
  assumes "hash_entries es = Inr (d, errs)"
  shows "card (dom d) = card (hash_entry ` set es)"
proof -
  have "card (Inr ` dom d :: (py_error + string) set) = card (dom d)"
    by (rule card_image) simp
  then show ?thesis
    using hash_entries_dom [OF assms] by simp
qed

lemma hash_entries_errors_distinct:
  assumes "hash_entries es = Inr (d, errs)"
  shows "errs = [] \<longleftrightarrow> distinct (map hash_entry es)"
proof -
  from hash_entries_inv [OF assms]
  have cnt: "length errs + card (dom d) = length es"
    unfolding loop_inv_def by blast
  have "card (set (map hash_entry es)) \<le> length (map hash_entry es)"
    by (rule card_length)
  moreover have "distinct (map hash_entry es) \<longleftrightarrow>
      card (set (map hash_entry es)) = length (map hash_entry es)"
    using card_distinct distinct_card by blast
  ultimately show ?thesis
    using cnt hash_entries_card [OF assms] by auto
qed


lemma duplicate_error_AttributeError:
  "duplicate_error e other = Inl err \<Longrightarrow> err = AttributeError"
  by (cases e) (auto simp: duplicate_error_def split: option.splits)

lemma hash_entry_AttributeError: "hash_entry e = Inl err \<Longrightarrow> err = AttributeError"
  using only_AttributeError(1) by (simp add: hash_entry_def)

lemma hash_entries_loop_AttributeError:
  "hash_entries_loop es st = Inl err \<Longrightarrow> err = AttributeError"
proof (induction es arbitrary: st)
  case Nil
  then show ?case by simp
next
  case (Cons e es)
  obtain d errs where st: "st = (d, errs)" by (cases st)
  from Cons.prems show ?case
    by (auto simp: st split: sum.splits option.splits
        dest: hash_entry_AttributeError duplicate_error_AttributeError Cons.IH)
qed

section \<open>The claims about \<open>hash_entries\<close>\<close>

text \<open>
  C3: for every list of entries, the list of errors that \<open>hash_entries\<close> returns is
  empty if and only if the index has as many keys as the list has entries; the
  \<open>assert\<close> never fails; and \<open>hash_entries\<close> does return on a list of directives.
\<close>

theorem hash_entries_errors_iff_size:
  "hash_entries entries \<noteq> Inl AssertionError \<and>
   (\<forall>idx errs. hash_entries entries = Inr (idx, errs) \<longrightarrow>
      (errs = [] \<longleftrightarrow> card (dom idx) = length entries)) \<and>
   ((\<forall>e\<in>set entries. is_directive e) \<longrightarrow>
      (\<exists>idx errs. hash_entries entries = Inr (idx, errs)))"
proof (intro conjI allI impI)
  show "hash_entries entries \<noteq> Inl AssertionError"
    using hash_entries_loop_AttributeError [of entries "(Map.empty, [])" AssertionError]
    by (auto simp: hash_entries_eq_loop)
next
  fix idx errs
  assume "hash_entries entries = Inr (idx, errs)"
  from hash_entries_inv [OF this]
  have "length errs + card (dom idx) = length entries"
    unfolding loop_inv_def by simp
  then show "errs = [] \<longleftrightarrow> card (dom idx) = length entries"
    by auto
next
  assume "\<forall>e\<in>set entries. is_directive e"
  from hash_entries_loop_total [OF this, of "(Map.empty, [])"]
  show "\<exists>idx errs. hash_entries entries = Inr (idx, errs)"
    by (auto simp: hash_entries_eq_loop)
qed

theorem hash_entries_errors_iff_size_witness:
  "hash_entries
     [NamedTuple ''Tx'' [(''source'', Atom ''1'' ''1''), (''amount'', Atom ''5'' ''5'')],
      NamedTuple ''Tx'' [(''source'', Atom ''2'' ''2''), (''amount'', Atom ''5'' ''5'')]]
     \<noteq> Inl AssertionError \<and>
   (\<exists>idx errs.
      hash_entries
        [NamedTuple ''Tx'' [(''source'', Atom ''1'' ''1''), (''amount'', Atom ''5'' ''5'')],
         NamedTuple ''Tx'' [(''source'', Atom ''2'' ''2''), (''amount'', Atom ''5'' ''5'')]]
        = Inr (idx, errs) \<and>
      length errs = 1 \<and> card (dom idx) \<noteq> 2)"
proof -
  let ?es = "[NamedTuple ''Tx'' [(''source'', Atom ''1'' ''1''), (''amount'', Atom ''5'' ''5'')],
      NamedTuple ''Tx'' [(''source'', Atom ''2'' ''2''), (''amount'', Atom ''5'' ''5'')]]"
  note inst = hash_entries_errors_iff_size [of ?es]
  have dir: "\<forall>e\<in>set ?es. is_directive e"
    by (simp add: is_directive_def)
  with inst obtain idx errs where ev: "hash_entries ?es = Inr (idx, errs)"
    by blast
  have "\<exists>d err. hash_entries_loop ?es (Map.empty, []) = Inr (d, [err])"
    by (simp add: hash_entry_def hash_fields_Cons duplicate_error_def)
  with ev have len: "length errs = 1"
    by (auto simp: hash_entries_eq_loop)
  then have "errs \<noteq> []" by auto
  with inst ev have "card (dom idx) \<noteq> 2" by auto
  with inst ev len show ?thesis by auto
qed

lemma find_SomeD: "List.find P xs = Some x \<Longrightarrow> x \<in> set xs \<and> P x"
  by (auto simp: find_Some_iff)

lemma expected_error_SomeD:
  assumes "expected_error es i = Some (Inr err)" and "i < length es"
  shows "\<exists>j<i. hash_entry (es ! j) = hash_entry (es ! i) \<and> entry err = es ! i \<and>
           message err = ''Duplicate entry: '' @ py_str (es ! i) @ '' == '' @ py_str (es ! j)"
proof -
  from assms(1) obtain h other where h: "hash_entry (es ! i) = Inr h"
    and other: "last_with_digest h (take i es) = Some other"
    and err: "duplicate_error (es ! i) other = Inr err"
    by (auto simp: expected_error_def split: sum.splits)
  from other have "other \<in> set (take i es)" and ho: "hash_entry other = Inr h"
    using find_SomeD [of "\<lambda>x. hash_entry x = Inr h" "rev (take i es)" other]
    by (simp_all add: last_with_digest_def)
  then obtain j where j: "j < i" "other = es ! j"
    using assms(2) by (auto simp: in_set_conv_nth)
  from err have "entry err = es ! i"
    and "message err = ''Duplicate entry: '' @ py_str (es ! i) @ '' == '' @ py_str other"
    by (auto simp: duplicate_error_def split: sum.splits)
  with j h ho show ?thesis by auto
qed

text \<open>
  C4: \<open>hash_entries\<close> returns one \<open>CompareError\<close> for each entry whose digest has
  occurred before it in the list, in the order of the list and none else, so that the
  size of the index is the length of the list minus the number of errors; each error
  holds the later entry and a message made of it and of the entry that the index held;
  and the index maps every digest to the last entry of the list that has it.
\<close>

theorem hash_entries_duplicates:
  assumes "hash_entries entries = Inr (idx, errs)"
  shows "map (\<lambda>err. Some (Inr err)) errs =
           filter (\<lambda>x. x \<noteq> None) (map (expected_error entries) [0..<length entries]) \<and>
         length errs = length entries - card (hash_entry ` set entries) \<and>
         card (dom idx) = length entries - length errs \<and>
         (\<forall>h. idx h = last_with_digest h entries) \<and>
         (\<forall>err\<in>set errs. \<exists>i j. j < i \<and> i < length entries \<and>
            hash_entry (entries ! j) = hash_entry (entries ! i) \<and>
            entry err = entries ! i \<and>
            message err =
              ''Duplicate entry: '' @ py_str (entries ! i) @ '' == '' @ py_str (entries ! j))"
proof -
  from hash_entries_inv [OF assms]
  have d: "\<forall>h. idx h = last_with_digest h entries"
    and cnt: "length errs + card (dom idx) = length entries"
    and errs: "map (\<lambda>err. Some (Inr err)) errs =
       filter (\<lambda>x. x \<noteq> None) (map (expected_error entries) [0..<length entries])"
    unfolding loop_inv_def by simp_all
  have refs: "\<exists>i j. j < i \<and> i < length entries \<and>
            hash_entry (entries ! j) = hash_entry (entries ! i) \<and>
            entry err = entries ! i \<and>
            message err =
              ''Duplicate entry: '' @ py_str (entries ! i) @ '' == '' @ py_str (entries ! j)"
    if "err \<in> set errs" for err
  proof -
    have "set (map (\<lambda>err. Some (Inr err)) errs) =
        set (filter (\<lambda>x. x \<noteq> None) (map (expected_error entries) [0..<length entries]))"
      using errs by (rule arg_cong)
    moreover from that have "Some (Inr err) \<in> set (map (\<lambda>err. Some (Inr err)) errs)"
      by simp
    ultimately have
      "Some (Inr err) \<in> set (map (expected_error entries) [0..<length entries])"
      by auto
    then obtain i where i: "i < length entries" "expected_error entries i = Some (Inr err)"
      by auto
    from expected_error_SomeD [OF i(2) i(1)] i(1) show ?thesis by blast
  qed
  from cnt hash_entries_card [OF assms]
  have "length errs = length entries - card (hash_entry ` set entries)"
    and "card (dom idx) = length entries - length errs"
    by simp_all
  with d errs refs show ?thesis by blast
qed

theorem hash_entries_duplicates_witness:
  "\<exists>idx errs.
      hash_entries
        [NamedTuple ''Tx'' [(''source'', Atom ''1'' ''1''), (''amount'', Atom ''5'' ''5'')],
         NamedTuple ''Tx'' [(''source'', Atom ''2'' ''2''), (''amount'', Atom ''5'' ''5'')]]
        = Inr (idx, errs) \<and>
      length errs = 1 \<and> card (dom idx) = 1 \<and>
      idx (md5_hexdigest ''5'') =
        Some (NamedTuple ''Tx'' [(''source'', Atom ''2'' ''2''), (''amount'', Atom ''5'' ''5'')])"
proof -
  let ?es = "[NamedTuple ''Tx'' [(''source'', Atom ''1'' ''1''), (''amount'', Atom ''5'' ''5'')],
      NamedTuple ''Tx'' [(''source'', Atom ''2'' ''2''), (''amount'', Atom ''5'' ''5'')]]"
  have "\<exists>d err. hash_entries_loop ?es (Map.empty, []) = Inr (d, [err])"
    by (simp add: hash_entry_def hash_fields_Cons duplicate_error_def)
  then obtain idx err where ev: "hash_entries ?es = Inr (idx, [err])"
    by (auto simp: hash_entries_eq_loop)
  note inst = hash_entries_duplicates [OF ev]
  from inst have "card (dom idx) = 1" by simp
  moreover from inst have "idx (md5_hexdigest ''5'') = last_with_digest (md5_hexdigest ''5'') ?es"
    by blast
  then have "idx (md5_hexdigest ''5'') = Some (?es ! 1)"
    by (simp add: last_with_digest_def hash_entry_def hash_fields_Cons)
  ultimately show ?thesis using ev by simp
qed

section \<open>The three comparisons\<close>

lemma lookup_all_Inr:
  "set ks \<subseteq> dom d \<Longrightarrow> \<exists>vs. lookup_all d ks = Inr vs \<and> map Some vs = map d ks"
proof (induction ks)
  case Nil
  show ?case by simp
next
  case (Cons k ks)
  from Cons.prems obtain v where v: "d k = Some v" by auto
  from Cons.prems have "set ks \<subseteq> dom d" by simp
  from Cons.IH [OF this] obtain vs where "lookup_all d ks = Inr vs" "map Some vs = map d ks"
    by blast
  with v show ?case by simp
qed

lemma lookup_all_iter:
  assumes "set_iteration iter" and "finite S" and "S \<subseteq> dom d"
  shows "\<exists>vs. lookup_all d (iter S) = Inr vs \<and> map Some vs = map d (iter S) \<and>
           (vs = [] \<longleftrightarrow> S = {})"
proof -
  from assms(1,2) have it: "set (iter S) = S"
    by (simp add: set_iteration_def)
  with assms(3) have "set (iter S) \<subseteq> dom d" by simp
  from lookup_all_Inr [OF this] obtain vs where
    vs: "lookup_all d (iter S) = Inr vs" "map Some vs = map d (iter S)"
    by blast
  from vs(2) have "length vs = length (iter S)"
    by (metis length_map)
  then have "vs = [] \<longleftrightarrow> iter S = []" by auto
  also have "\<dots> \<longleftrightarrow> S = {}" using it by auto
  finally show ?thesis using vs by blast
qed

lemma hash_entries_finite_dom:
  "hash_entries es = Inr (d, errs) \<Longrightarrow> finite (dom d)"
  using hash_entries_inv [of es d errs] by (simp add: loop_inv_def)

lemma hash_entries_total:
  "\<forall>e\<in>set es. is_directive e \<Longrightarrow> \<exists>d errs. hash_entries es = Inr (d, errs)"
  using hash_entries_loop_total [of es "(Map.empty, [])"]
  by (auto simp: hash_entries_eq_loop)

lemma sort_key_Nil_iff: "sort_key f xs = [] \<longleftrightarrow> xs = []"
  by (metis length_0_conv length_sort)

text \<open>What the three comparisons return when neither list has a duplicate.\<close>

lemma compare_entries_no_errors:
  assumes "set_iteration iter"
    and "hash_entries es1 = Inr (d1, [])" and "hash_entries es2 = Inr (d2, [])"
  shows "\<exists>v1 v2. compare_entries key iter es1 es2 =
             Inr (dom d1 = dom d2, sort_key key v1, sort_key key v2) \<and>
           map Some v1 = map d1 (iter (dom d1 - dom d2)) \<and>
           map Some v2 = map d2 (iter (dom d2 - dom d1)) \<and>
           (v1 = [] \<longleftrightarrow> dom d1 - dom d2 = {}) \<and> (v2 = [] \<longleftrightarrow> dom d2 - dom d1 = {})"
proof -
  have f1: "finite (dom d1 - dom d2)" and f2: "finite (dom d2 - dom d1)"
    using hash_entries_finite_dom [OF assms(2)] hash_entries_finite_dom [OF assms(3)]
    by simp_all
  from lookup_all_iter [OF assms(1) f1, of d1] obtain v1 where
    v1: "lookup_all d1 (iter (dom d1 - dom d2)) = Inr v1"
      "map Some v1 = map d1 (iter (dom d1 - dom d2))" "v1 = [] \<longleftrightarrow> dom d1 - dom d2 = {}"
    by auto
  from lookup_all_iter [OF assms(1) f2, of d2] obtain v2 where
    v2: "lookup_all d2 (iter (dom d2 - dom d1)) = Inr v2"
      "map Some v2 = map d2 (iter (dom d2 - dom d1))" "v2 = [] \<longleftrightarrow> dom d2 - dom d1 = {}"
    by auto
  have "compare_entries key iter es1 es2 =
          Inr (dom d1 = dom d2, sort_key key v1, sort_key key v2)"
    by (simp add: compare_entries_def assms(2,3) v1(1) v2(1))
  with v1 v2 show ?thesis by blast
qed

lemma includes_entries_no_errors:
  assumes "set_iteration iter"
    and "hash_entries es1 = Inr (d1, [])" and "hash_entries es2 = Inr (d2, [])"
  shows "\<exists>v. includes_entries key iter es1 es2 = Inr (dom d1 \<subseteq> dom d2, sort_key key v) \<and>
           map Some v = map d1 (iter (dom d1 - dom d2))"
proof -
  have f1: "finite (dom d1 - dom d2)"
    using hash_entries_finite_dom [OF assms(2)] by simp
  from lookup_all_iter [OF assms(1) f1, of d1] obtain v where
    v: "lookup_all d1 (iter (dom d1 - dom d2)) = Inr v"
      "map Some v = map d1 (iter (dom d1 - dom d2))"
    by auto
  have "includes_entries key iter es1 es2 = Inr (dom d1 \<subseteq> dom d2, sort_key key v)"
    by (simp add: includes_entries_def assms(2,3) v(1))
  with v show ?thesis by blast
qed

lemma excludes_entries_no_errors:
  assumes "set_iteration iter"
    and "hash_entries es1 = Inr (d1, [])" and "hash_entries es2 = Inr (d2, [])"
  shows "\<exists>v. excludes_entries key iter es1 es2 =
             Inr (dom d2 \<inter> dom d1 = {}, sort_key key v) \<and>
           map Some v = map d1 (iter (dom d2 \<inter> dom d1))"
proof -
  have f1: "finite (dom d2 \<inter> dom d1)"
    using hash_entries_finite_dom [OF assms(2)] by simp
  from lookup_all_iter [OF assms(1) f1, of d1] obtain v where
    v: "lookup_all d1 (iter (dom d2 \<inter> dom d1)) = Inr v"
      "map Some v = map d1 (iter (dom d2 \<inter> dom d1))"
    by auto
  have "excludes_entries key iter es1 es2 = Inr (dom d2 \<inter> dom d1 = {}, sort_key key v)"
    by (simp add: excludes_entries_def assms(2,3) v(1))
  with v show ?thesis by blast
qed

text \<open>What they raise when one of the lists has a duplicate.\<close>

lemma comparisons_errors:
  assumes "hash_entries es1 = Inr (d1, errs1)" and "hash_entries es2 = Inr (d2, errs2)"
    and "errs1 @ errs2 \<noteq> []"
  shows "compare_entries key iter es1 es2 = Inl (ValueError (hd (errs1 @ errs2)))"
    and "includes_entries key iter es1 es2 = Inl (ValueError (hd (errs1 @ errs2)))"
    and "excludes_entries key iter es1 es2 = Inl (ValueError (hd (errs1 @ errs2)))"
proof -
  from assms(3) obtain err rest where e: "errs1 @ errs2 = err # rest"
    by (cases "errs1 @ errs2") simp_all
  then have r: "raise_first (errs1 @ errs2) = ValueError (hd (errs1 @ errs2))"
    by (simp add: raise_first_def)
  from assms(3) have ne: "errs1 \<noteq> [] \<or> errs2 \<noteq> []" by simp
  show "compare_entries key iter es1 es2 = Inl (ValueError (hd (errs1 @ errs2)))"
    using ne r by (simp add: compare_entries_def assms(1,2))
  show "includes_entries key iter es1 es2 = Inl (ValueError (hd (errs1 @ errs2)))"
    using ne r by (simp add: includes_entries_def assms(1,2))
  show "excludes_entries key iter es1 es2 = Inl (ValueError (hd (errs1 @ errs2)))"
    using ne r by (simp add: excludes_entries_def assms(1,2))
qed


lemma set_iteration_sorted_list_of_set: "set_iteration sorted_list_of_set"
  by (simp add: set_iteration_def)

lemma last_with_digest_distinct:
  assumes "distinct (map hash_entry es)" and "e \<in> set es" and "hash_entry e = Inr h"
  shows "last_with_digest h es = Some e"
proof -
  from assms(2,3) have "Inr h \<in> hash_entry ` set es"
    by (metis image_eqI)
  then have "last_with_digest h es \<noteq> None"
    by (simp add: last_with_digest_None)
  then obtain x where x: "last_with_digest h es = Some x" by auto
  then have "x \<in> set es" and "hash_entry x = Inr h"
    using find_SomeD [of "\<lambda>x. hash_entry x = Inr h" "rev es" x]
    by (simp_all add: last_with_digest_def)
  then have xe: "hash_entry x = hash_entry e"
    using assms(3) by simp
  from assms(1) have "inj_on hash_entry (set es)"
    by (simp add: distinct_map)
  from this xe \<open>x \<in> set es\<close> assms(2) have "x = e"
    by (rule inj_onD)
  with x show ?thesis by simp
qed

text \<open>
  The entries of a list without duplicates, in the iteration order of its digests: a
  permutation of the list.
\<close>

lemma index_values_permutation:
  assumes it: "set_iteration iter"
    and he: "hash_entries es = Inr (d, errs)"
    and dist: "distinct (map hash_entry es)"
    and vs: "map Some vs = map d (iter (dom d))"
  shows "mset vs = mset es"
proof -
  from hash_entries_inv [OF he]
  have d: "\<And>h. d h = last_with_digest h es"
    and ok: "\<forall>e\<in>set es. \<exists>h. hash_entry e = Inr h"
    and fin: "finite (dom d)"
    unfolding loop_inv_def by simp_all
  from ok have "\<exists>g. \<forall>e\<in>set es. hash_entry e = Inr (g e)"
    by (rule bchoice)
  then obtain g where g: "\<forall>e\<in>set es. hash_entry e = Inr (g e)" ..
  have dg: "d (g e) = Some e" if "e \<in> set es" for e
    using last_with_digest_distinct [OF dist that] g that by (simp add: d)
  have "map hash_entry es = map Inr (map g es)"
    using g by simp
  with dist have "distinct (map Inr (map g es) :: (py_error + string) list)"
    by simp
  then have dg': "distinct (map g es)"
    by (metis distinct_map)
  have "Inr ` set (map g es) = (hash_entry ` set es :: (py_error + string) set)"
    using g by force
  with hash_entries_dom [OF he] have "Inr ` set (map g es) = (Inr ` dom d :: (py_error + string) set)"
    by simp
  then have sg: "set (map g es) = dom d"
    by (simp add: inj_image_eq_iff)
  from it fin have "set (iter (dom d)) = dom d" and "distinct (iter (dom d))"
    by (simp_all add: set_iteration_def)
  with sg dg' have "mset (iter (dom d)) = mset (map g es)"
    by (metis set_eq_iff_mset_eq_distinct)
  then have "mset (map d (iter (dom d))) = mset (map d (map g es))"
    by (metis mset_map)
  also have "map d (map g es) = map Some es"
    using dg by simp
  finally have "mset (map Some vs) = mset (map Some es)"
    using vs by simp
  then have "mset (map the (map Some vs)) = mset (map the (map Some es))"
    by (metis mset_map)
  then show ?thesis
    by (simp add: comp_def)
qed

section \<open>The claims about the comparisons\<close>

text \<open>
  C5: on lists of directives, each of \<open>compare_entries\<close>, \<open>includes_entries\<close> and
  \<open>excludes_entries\<close> raises if and only if one of the two lists has two entries with
  the same digest; what it raises is the \<open>ValueError\<close> of the first error of the first
  list, or of the second list when the first has none; and when it raises there is no
  result. Otherwise it returns.
\<close>

theorem comparisons_raise_iff_duplicate:
  assumes "set_iteration iter"
    and "\<forall>e\<in>set entries1 \<union> set entries2. is_directive e"
  shows "\<exists>idx1 errs1 idx2 errs2.
           hash_entries entries1 = Inr (idx1, errs1) \<and>
           hash_entries entries2 = Inr (idx2, errs2) \<and>
           (errs1 @ errs2 = [] \<longleftrightarrow>
              distinct (map hash_entry entries1) \<and> distinct (map hash_entry entries2)) \<and>
           (if errs1 @ errs2 = [] then
              (\<exists>r. compare_entries entry_sortkey iter entries1 entries2 = Inr r) \<and>
              (\<exists>r. includes_entries entry_sortkey iter entries1 entries2 = Inr r) \<and>
              (\<exists>r. excludes_entries entry_sortkey iter entries1 entries2 = Inr r)
            else
              compare_entries entry_sortkey iter entries1 entries2 =
                Inl (ValueError (if errs1 \<noteq> [] then hd errs1 else hd errs2)) \<and>
              includes_entries entry_sortkey iter entries1 entries2 =
                Inl (ValueError (if errs1 \<noteq> [] then hd errs1 else hd errs2)) \<and>
              excludes_entries entry_sortkey iter entries1 entries2 =
                Inl (ValueError (if errs1 \<noteq> [] then hd errs1 else hd errs2)))"
proof -
  from assms(2) have "\<forall>e\<in>set entries1. is_directive e" and "\<forall>e\<in>set entries2. is_directive e"
    by simp_all
  then obtain idx1 errs1 idx2 errs2 where
    h1: "hash_entries entries1 = Inr (idx1, errs1)" and
    h2: "hash_entries entries2 = Inr (idx2, errs2)"
    using hash_entries_total by blast
  have iff: "errs1 @ errs2 = [] \<longleftrightarrow>
      distinct (map hash_entry entries1) \<and> distinct (map hash_entry entries2)"
    using hash_entries_errors_distinct [OF h1] hash_entries_errors_distinct [OF h2] by simp
  have hd: "hd (errs1 @ errs2) = (if errs1 \<noteq> [] then hd errs1 else hd errs2)"
    by (simp add: hd_append)
  show ?thesis
  proof (cases "errs1 @ errs2 = []")
    case True
    then have e: "errs1 = []" "errs2 = []" by simp_all
    from compare_entries_no_errors [OF assms(1) h1 [unfolded e] h2 [unfolded e]]
      includes_entries_no_errors [OF assms(1) h1 [unfolded e] h2 [unfolded e]]
      excludes_entries_no_errors [OF assms(1) h1 [unfolded e] h2 [unfolded e]]
    have "\<exists>r. compare_entries entry_sortkey iter entries1 entries2 = Inr r"
      and "\<exists>r. includes_entries entry_sortkey iter entries1 entries2 = Inr r"
      and "\<exists>r. excludes_entries entry_sortkey iter entries1 entries2 = Inr r"
      by blast+
    with h1 h2 iff True show ?thesis by (simp add: e)
  next
    case False
    from comparisons_errors [OF h1 h2 False, of entry_sortkey iter]
    have "compare_entries entry_sortkey iter entries1 entries2 =
            Inl (ValueError (if errs1 \<noteq> [] then hd errs1 else hd errs2))"
      and "includes_entries entry_sortkey iter entries1 entries2 =
            Inl (ValueError (if errs1 \<noteq> [] then hd errs1 else hd errs2))"
      and "excludes_entries entry_sortkey iter entries1 entries2 =
            Inl (ValueError (if errs1 \<noteq> [] then hd errs1 else hd errs2))"
      unfolding hd by simp_all
    with h1 h2 iff False show ?thesis by (intro exI [of _ idx1] exI [of _ errs1] exI [of _ idx2] exI [of _ errs2]) simp
  qed
qed

text \<open>
  C9: for a non-empty list \<open>A\<close> of directives without duplicates,
  \<open>excludes_entries(A, A)\<close> returns \<open>False\<close> and a list that has exactly the entries
  of \<open>A\<close>, sorted by \<open>entry_sortkey\<close>.
\<close>

theorem excludes_entries_self:
  assumes "set_iteration iter"
    and "A \<noteq> []"
    and "distinct (map hash_entry A)"
    and "\<forall>e\<in>set A. is_directive e"
  shows "\<exists>extra. excludes_entries entry_sortkey iter A A = Inr (False, extra) \<and>
           mset extra = mset A \<and> sorted (map entry_sortkey extra)"
proof -
  from hash_entries_total [OF assms(4)] obtain d errs where
    he: "hash_entries A = Inr (d, errs)" by blast
  from hash_entries_errors_distinct [OF he] assms(3) have errs: "errs = []" by simp
  note he0 = he [unfolded errs]
  from excludes_entries_no_errors [OF assms(1) he0 he0, of entry_sortkey] obtain v where
    ex: "excludes_entries entry_sortkey iter A A = Inr (dom d \<inter> dom d = {}, sort_key entry_sortkey v)"
    and v: "map Some v = map d (iter (dom d \<inter> dom d))"
    by blast
  from v have v': "map Some v = map d (iter (dom d))" by simp
  have perm: "mset v = mset A"
    by (rule index_values_permutation [OF assms(1) he assms(3) v'])
  from assms(2) have "hash_entry ` set A \<noteq> {}" by simp
  with hash_entries_dom [OF he] have "dom d \<noteq> {}" by auto
  with ex have "excludes_entries entry_sortkey iter A A = Inr (False, sort_key entry_sortkey v)"
    by simp
  moreover have "mset (sort_key entry_sortkey v) = mset A"
    using perm by simp
  moreover have "sorted (map entry_sortkey (sort_key entry_sortkey v))"
    by (rule sorted_sort_key)
  ultimately show ?thesis by blast
qed

text \<open>
  C10: for two lists of directives without duplicates, \<open>compare_entries\<close> returns, and
  the boolean it returns is true if and only if both lists of missing entries are empty.
\<close>

theorem compare_entries_same_iff_nothing_missing:
  assumes "set_iteration iter"
    and "\<forall>e\<in>set entries1 \<union> set entries2. is_directive e"
    and "distinct (map hash_entry entries1)"
    and "distinct (map hash_entry entries2)"
  shows "\<exists>same missing1 missing2.
           compare_entries entry_sortkey iter entries1 entries2 = Inr (same, missing1, missing2) \<and>
           (same \<longleftrightarrow> missing1 = [] \<and> missing2 = [])"
proof -
  from assms(2) have "\<forall>e\<in>set entries1. is_directive e" and "\<forall>e\<in>set entries2. is_directive e"
    by simp_all
  then obtain d1 errs1 d2 errs2 where
    h1: "hash_entries entries1 = Inr (d1, errs1)" and
    h2: "hash_entries entries2 = Inr (d2, errs2)"
    using hash_entries_total by blast
  from hash_entries_errors_distinct [OF h1] hash_entries_errors_distinct [OF h2] assms(3,4)
  have e: "errs1 = []" "errs2 = []" by simp_all
  from compare_entries_no_errors [OF assms(1) h1 [unfolded e] h2 [unfolded e], of entry_sortkey]
  obtain v1 v2 where
    c: "compare_entries entry_sortkey iter entries1 entries2 =
          Inr (dom d1 = dom d2, sort_key entry_sortkey v1, sort_key entry_sortkey v2)"
    and v: "v1 = [] \<longleftrightarrow> dom d1 - dom d2 = {}" "v2 = [] \<longleftrightarrow> dom d2 - dom d1 = {}"
    by blast
  have "dom d1 = dom d2 \<longleftrightarrow>
        sort_key entry_sortkey v1 = [] \<and> sort_key entry_sortkey v2 = []"
    unfolding sort_key_Nil_iff v by auto
  with c show ?thesis by blast
qed


theorem comparisons_raise_iff_duplicate_witness:
  "\<exists>err.
     compare_entries py_str sorted_list_of_set
       [NamedTuple ''Tx'' [(''source'', Atom ''1'' ''1''), (''amount'', Atom ''5'' ''5'')],
      NamedTuple ''Tx'' [(''source'', Atom ''2'' ''2''), (''amount'', Atom ''5'' ''5'')]] [] = Inl (ValueError err) \<and>
     includes_entries py_str sorted_list_of_set
       [NamedTuple ''Tx'' [(''source'', Atom ''1'' ''1''), (''amount'', Atom ''5'' ''5'')],
      NamedTuple ''Tx'' [(''source'', Atom ''2'' ''2''), (''amount'', Atom ''5'' ''5'')]] [] = Inl (ValueError err) \<and>
     excludes_entries py_str sorted_list_of_set
       [NamedTuple ''Tx'' [(''source'', Atom ''1'' ''1''), (''amount'', Atom ''5'' ''5'')],
      NamedTuple ''Tx'' [(''source'', Atom ''2'' ''2''), (''amount'', Atom ''5'' ''5'')]] [] = Inl (ValueError err) \<and>
     entry err = NamedTuple ''Tx'' [(''source'', Atom ''2'' ''2''), (''amount'', Atom ''5'' ''5'')]"
proof -
  let ?es = "[NamedTuple ''Tx'' [(''source'', Atom ''1'' ''1''), (''amount'', Atom ''5'' ''5'')],
      NamedTuple ''Tx'' [(''source'', Atom ''2'' ''2''), (''amount'', Atom ''5'' ''5'')]]"
  have it: "set_iteration sorted_list_of_set"
    by (rule set_iteration_sorted_list_of_set)
  have dir: "\<forall>e\<in>set ?es \<union> set []. is_directive e"
    by (simp add: is_directive_def)
  from comparisons_raise_iff_duplicate [OF it dir, of py_str]
  obtain idx1 errs1 idx2 errs2 where
    h1: "hash_entries ?es = Inr (idx1, errs1)" and
    branch: "if errs1 @ errs2 = [] then
              (\<exists>r. compare_entries py_str sorted_list_of_set ?es [] = Inr r) \<and>
              (\<exists>r. includes_entries py_str sorted_list_of_set ?es [] = Inr r) \<and>
              (\<exists>r. excludes_entries py_str sorted_list_of_set ?es [] = Inr r)
            else
              compare_entries py_str sorted_list_of_set ?es [] =
                Inl (ValueError (if errs1 \<noteq> [] then hd errs1 else hd errs2)) \<and>
              includes_entries py_str sorted_list_of_set ?es [] =
                Inl (ValueError (if errs1 \<noteq> [] then hd errs1 else hd errs2)) \<and>
              excludes_entries py_str sorted_list_of_set ?es [] =
                Inl (ValueError (if errs1 \<noteq> [] then hd errs1 else hd errs2))"
    by blast
  have "\<exists>d err. hash_entries_loop ?es (Map.empty, []) = Inr (d, [err]) \<and>
          entry err = NamedTuple ''Tx'' [(''source'', Atom ''2'' ''2''), (''amount'', Atom ''5'' ''5'')]"
    by (simp add: hash_entry_def hash_fields_Cons duplicate_error_def)
  with h1 obtain err where errs1: "errs1 = [err]" and
    err: "entry err = NamedTuple ''Tx'' [(''source'', Atom ''2'' ''2''), (''amount'', Atom ''5'' ''5'')]"
    by (auto simp: hash_entries_eq_loop)
  from branch show ?thesis
    by (simp add: errs1 err)
qed

theorem excludes_entries_self_witness:
  "\<exists>extra.
     excludes_entries py_str sorted_list_of_set
       [NamedTuple ''Tx'' [(''source'', Atom ''1'' ''1''), (''amount'', Atom ''5'' ''5'')],
      NamedTuple ''Tx'' [(''source'', Atom ''2'' ''2''), (''amount'', Atom ''7'' ''7'')]]
       [NamedTuple ''Tx'' [(''source'', Atom ''1'' ''1''), (''amount'', Atom ''5'' ''5'')],
      NamedTuple ''Tx'' [(''source'', Atom ''2'' ''2''), (''amount'', Atom ''7'' ''7'')]] = Inr (False, extra) \<and>
     mset extra = mset [NamedTuple ''Tx'' [(''source'', Atom ''1'' ''1''), (''amount'', Atom ''5'' ''5'')],
      NamedTuple ''Tx'' [(''source'', Atom ''2'' ''2''), (''amount'', Atom ''7'' ''7'')]] \<and>
     sorted (map py_str extra)"
proof -
  let ?A = "[NamedTuple ''Tx'' [(''source'', Atom ''1'' ''1''), (''amount'', Atom ''5'' ''5'')],
      NamedTuple ''Tx'' [(''source'', Atom ''2'' ''2''), (''amount'', Atom ''7'' ''7'')]]"
  have it: "set_iteration sorted_list_of_set"
    by (rule set_iteration_sorted_list_of_set)
  have ne: "?A \<noteq> []" by simp
  have dist: "distinct (map hash_entry ?A)"
    by (simp add: hash_entry_def hash_fields_Cons md5_5 md5_7)
  have dir: "\<forall>e\<in>set ?A. is_directive e"
    by (simp add: is_directive_def)
  from excludes_entries_self [OF it ne dist dir, of py_str] show ?thesis .
qed

theorem compare_entries_same_iff_nothing_missing_witness:
  "compare_entries py_str sorted_list_of_set
     [NamedTuple ''Tx'' [(''source'', Atom ''1'' ''1''), (''amount'', Atom ''5'' ''5'')],
      NamedTuple ''Tx'' [(''source'', Atom ''2'' ''2''), (''amount'', Atom ''7'' ''7'')]]
     [NamedTuple ''Tx'' [(''source'', Atom ''3'' ''3''), (''amount'', Atom ''5'' ''5'')],
      NamedTuple ''Tx'' [(''source'', Atom ''4'' ''4''), (''amount'', Atom ''7'' ''7'')]] = Inr (True, [], [])"
proof -
  let ?A = "[NamedTuple ''Tx'' [(''source'', Atom ''1'' ''1''), (''amount'', Atom ''5'' ''5'')],
      NamedTuple ''Tx'' [(''source'', Atom ''2'' ''2''), (''amount'', Atom ''7'' ''7'')]]"
  let ?B = "[NamedTuple ''Tx'' [(''source'', Atom ''3'' ''3''), (''amount'', Atom ''5'' ''5'')],
      NamedTuple ''Tx'' [(''source'', Atom ''4'' ''4''), (''amount'', Atom ''7'' ''7'')]]"
  have it: "set_iteration sorted_list_of_set"
    by (rule set_iteration_sorted_list_of_set)
  have distA: "distinct (map hash_entry ?A)"
    by (simp add: hash_entry_def hash_fields_Cons md5_5 md5_7)
  have distB: "distinct (map hash_entry ?B)"
    by (simp add: hash_entry_def hash_fields_Cons md5_5 md5_7)
  have dir: "\<forall>e\<in>set ?A \<union> set ?B. is_directive e"
    by (simp add: is_directive_def)
  from compare_entries_same_iff_nothing_missing [OF it dir distA distB, of py_str]
  obtain same missing1 missing2 where
    c: "compare_entries py_str sorted_list_of_set ?A ?B = Inr (same, missing1, missing2)"
    and iff: "same \<longleftrightarrow> missing1 = [] \<and> missing2 = []"
    by blast
  have "\<exists>m1 m2. compare_entries py_str sorted_list_of_set ?A ?B = Inr (True, m1, m2)"
    by (simp add: compare_entries_def hash_entries_eq_loop hash_entry_def hash_fields_Cons
          md5_5 md5_7)
  with c have same by simp
  with iff c show ?thesis by simp
qed

end
